theory Spec2Isabelle
  imports Complex_Main "HOL-Library.Multiset"
begin

section \<open>Data model of \<^verbatim>\<open>quadtree.h\<close>\<close>

text \<open>
  Modelled from the spec: \<^verbatim>\<open>Vec2\<close> is declared in \<^verbatim>\<open>linear_algebra.h\<close>, which is
  not part of the sources; the spec describes it as a 2D point/vector type exposing the
  components \<^verbatim>\<open>x\<close> and \<^verbatim>\<open>y\<close>. The components are C floats; they are
  modelled as real numbers, so rounding, infinities and NaN are outside the model. The
  fields are called \<open>vx\<close> and \<open>vy\<close> so that \<open>x\<close> and \<open>y\<close> stay free for variables.
\<close>

record Vec2 =
  vx :: real
  vy :: real

record Boundary =
  pos :: Vec2
  half_dim :: Vec2

text \<open>The payload \<^verbatim>\<open>void *data\<close> is an opaque address, never dereferenced by the tree.\<close>

record QT_Object =
  data :: nat
  pos :: Vec2

definition QT_MAX_DEPTH :: int where
  "QT_MAX_DEPTH = 10"

text \<open>\<^verbatim>\<open>int\<close> is taken to be 32 bits wide.\<close>

definition INT_MAX :: int where
  "INT_MAX = 2147483647"

definition INT_MIN :: int where
  "INT_MIN = - 2147483648"

text \<open>
  \<^verbatim>\<open>struct QuadTree\<close>. The four slots of \<^verbatim>\<open>branches\<close> are written together
  (lines 100 to 106) and never cleared, so a node has either four null slots (\<open>Leaf\<close>)
  or four children (\<open>Quad\<close>, in slot order 0, 1, 2, 3). The field \<open>objects\<close> is
  \<open>None\<close> for the null pointer and otherwise holds the initialised prefix
  \<^verbatim>\<open>objects[0 .. obj_count)\<close> of the buffer, so \<^verbatim>\<open>obj_count\<close> is the length of
  that list; the buffer itself has \<open>capacity\<close> slots.
\<close>

datatype QuadTree =
    Leaf (boundary: Boundary) (objects: "QT_Object list option") (capacity: int) (depth: int)
  | Quad (boundary: Boundary) (objects: "QT_Object list option") (capacity: int) (depth: int)
         (branch0: QuadTree) (branch1: QuadTree) (branch2: QuadTree) (branch3: QuadTree)

text \<open>
  Behaviour that C leaves undefined is a fault of the model: the signed overflow of
  \<^verbatim>\<open>capacity *= 2\<close>, a write to \<^verbatim>\<open>objects[obj_count]\<close> past the reallocated buffer,
  and a call through a null branch. \<^verbatim>\<open>malloc\<close> and \<^verbatim>\<open>realloc\<close> are assumed to
  succeed (the \<^verbatim>\<open>exit\<close> paths are not modelled), and \<^verbatim>\<open>printf\<close> is ignored.
\<close>

datatype QT_Fault = Signed_Overflow | Buffer_Overrun | Null_Branch

section \<open>Boundary geometry\<close>

definition BoundaryContains :: "Boundary \<Rightarrow> Vec2 \<Rightarrow> bool" where
  "BoundaryContains b p \<longleftrightarrow>
     (vx p \<ge> vx (Boundary.pos b) - vx (half_dim b) \<and>
      vx p \<le> vx (Boundary.pos b) + vx (half_dim b)) \<and>
     (vy p \<ge> vy (Boundary.pos b) - vy (half_dim b) \<and>
      vy p \<le> vy (Boundary.pos b) + vy (half_dim b))"

definition BoundaryIntersects :: "Boundary \<Rightarrow> Boundary \<Rightarrow> bool" where
  "BoundaryIntersects this that =
     (if \<bar>vx (Boundary.pos this) - vx (Boundary.pos that)\<bar> > vx (half_dim this) + vx (half_dim that)
      then False
      else if \<bar>vy (Boundary.pos this) - vy (Boundary.pos that)\<bar> > vy (half_dim this) + vy (half_dim that)
      then False
      else True)"

section \<open>Nodes\<close>

definition QT_New :: "Boundary \<Rightarrow> int \<Rightarrow> QuadTree" where
  "QT_New b cap = Leaf b (Some []) cap 1"

definition QT_IsLeaf :: "QuadTree \<Rightarrow> bool" where
  "QT_IsLeaf qt = (case qt of Leaf _ _ _ _ \<Rightarrow> True | Quad _ _ _ _ _ _ _ _ \<Rightarrow> False)"

definition buffer :: "QuadTree \<Rightarrow> QT_Object list" where
  "buffer qt = (case objects qt of None \<Rightarrow> [] | Some xs \<Rightarrow> xs)"

definition obj_count :: "QuadTree \<Rightarrow> int" where
  "obj_count qt = int (length (buffer qt))"

text \<open>Assignments to \<^verbatim>\<open>objects\<close> and \<^verbatim>\<open>capacity\<close>, and to \<^verbatim>\<open>depth\<close>.\<close>

fun set_buffer :: "QuadTree \<Rightarrow> QT_Object list option \<Rightarrow> int \<Rightarrow> QuadTree" where
  "set_buffer (Leaf b _ _ d) os c = Leaf b os c d"
| "set_buffer (Quad b _ _ d n0 n1 n2 n3) os c = Quad b os c d n0 n1 n2 n3"

fun set_depth :: "QuadTree \<Rightarrow> int \<Rightarrow> QuadTree" where
  "set_depth (Leaf b os c _) d = Leaf b os c d"
| "set_depth (Quad b os c _ n0 n1 n2 n3) d = Quad b os c d n0 n1 n2 n3"

text \<open>Line 130: \<^verbatim>\<open>qt->objects[qt->obj_count++] = *obj\<close>.\<close>

definition QT_store :: "QuadTree \<Rightarrow> QT_Object \<Rightarrow> QuadTree" where
  "QT_store qt obj = set_buffer qt (Some (buffer qt @ [obj])) (capacity qt)"

text \<open>
  Lines 144 to 152: the capacity is doubled, the buffer reallocated to the new capacity
  (\<^verbatim>\<open>realloc\<close> of a null pointer allocates a fresh buffer) and the object is written at
  index \<^verbatim>\<open>obj_count\<close>.
\<close>

definition QT_grow :: "QuadTree \<Rightarrow> QT_Object \<Rightarrow> QT_Fault + bool \<times> QuadTree" where
  "QT_grow qt obj =
     (let cap' = capacity qt * 2 in
      if cap' > INT_MAX \<or> cap' < INT_MIN then Inl Signed_Overflow
      else if obj_count qt \<ge> cap' then Inl Buffer_Overrun
      else Inr (True, set_buffer qt (Some (buffer qt @ [obj])) cap'))"

text \<open>
  The boundaries of the four children (lines 86 to 99): the half extent is halved and
  the centre is moved by the new half extent, to the west or east and to the north or
  south (\<^verbatim>\<open>y\<close> grows to the south).
\<close>

definition child_half_width :: "Boundary \<Rightarrow> real" where
  "child_half_width b = vx (half_dim b) / 2"

definition child_half_height :: "Boundary \<Rightarrow> real" where
  "child_half_height b = vy (half_dim b) / 2"

definition b_northwest :: "Boundary \<Rightarrow> Boundary" where
  "b_northwest b =
     \<lparr> Boundary.pos = \<lparr> vx = vx (Boundary.pos b) - child_half_width b,
                        vy = vy (Boundary.pos b) - child_half_height b \<rparr>,
       half_dim = \<lparr> vx = child_half_width b, vy = child_half_height b \<rparr> \<rparr>"

definition b_southwest :: "Boundary \<Rightarrow> Boundary" where
  "b_southwest b =
     \<lparr> Boundary.pos = \<lparr> vx = vx (Boundary.pos b) - child_half_width b,
                        vy = vy (Boundary.pos b) + child_half_height b \<rparr>,
       half_dim = \<lparr> vx = child_half_width b, vy = child_half_height b \<rparr> \<rparr>"

definition b_northeast :: "Boundary \<Rightarrow> Boundary" where
  "b_northeast b =
     \<lparr> Boundary.pos = \<lparr> vx = vx (Boundary.pos b) + child_half_width b,
                        vy = vy (Boundary.pos b) - child_half_height b \<rparr>,
       half_dim = \<lparr> vx = child_half_width b, vy = child_half_height b \<rparr> \<rparr>"

definition b_southeast :: "Boundary \<Rightarrow> Boundary" where
  "b_southeast b =
     \<lparr> Boundary.pos = \<lparr> vx = vx (Boundary.pos b) + child_half_width b,
                        vy = vy (Boundary.pos b) + child_half_height b \<rparr>,
       half_dim = \<lparr> vx = child_half_width b, vy = child_half_height b \<rparr> \<rparr>"

section \<open>Insertion and subdivision\<close>

text \<open>
  The number of subdivisions that can still happen below a node bounds the mutual
  recursion of \<^verbatim>\<open>QT_Insert\<close> and \<^verbatim>\<open>QT_Subdivide\<close>.
\<close>

definition split_room :: "QuadTree \<Rightarrow> nat" where
  "split_room qt =
     (if QT_IsLeaf qt \<and> depth qt \<le> QT_MAX_DEPTH then nat (QT_MAX_DEPTH + 1 - depth qt) else 0)"

fun branches_room :: "QuadTree \<Rightarrow> nat" where
  "branches_room (Leaf _ _ _ _) = 0"
| "branches_room (Quad _ _ _ _ n0 n1 n2 n3) =
     Suc (max (max (split_room n0) (split_room n1)) (max (split_room n2) (split_room n3)))"

fun call_rank ::
  "(QuadTree \<times> QT_Object + QuadTree \<times> QT_Object) + (QuadTree \<times> QT_Object list + QuadTree)
     \<Rightarrow> nat \<times> nat \<times> nat" where
  "call_rank (Inl (Inl (qt, obj))) = (split_room qt, 3, 0)"
| "call_rank (Inl (Inr (qt, obj))) = (branches_room qt, 0, 0)"
| "call_rank (Inr (Inl (qt, objs))) = (branches_room qt, 1, length objs)"
| "call_rank (Inr (Inr qt)) = (Suc (nat (QT_MAX_DEPTH - depth qt)), 2, 0)"

text \<open>
  \<open>QT_Insert\<close> and \<open>QT_Subdivide\<close> follow the source. \<open>QT_Insert_branches\<close> is the
  loop over the four branches that both functions contain (lines 110 to 115 and 135 to
  139): the object is offered to branch 0, 1, 2, 3 in turn and the loop ends at the first
  branch whose \<open>QT_Insert\<close> returns true. \<open>QT_push_down\<close> is the loop over the
  buffered objects (line 109); it ignores whether a branch took the object. A function
  returns the node as the call leaves it.
\<close>

function QT_Insert :: "QuadTree \<Rightarrow> QT_Object \<Rightarrow> QT_Fault + bool \<times> QuadTree"
  and QT_Insert_branches :: "QuadTree \<Rightarrow> QT_Object \<Rightarrow> QT_Fault + bool \<times> QuadTree"
  and QT_push_down :: "QuadTree \<Rightarrow> QT_Object list \<Rightarrow> QT_Fault + QuadTree"
  and QT_Subdivide :: "QuadTree \<Rightarrow> QT_Fault + QuadTree"
where
  "QT_Insert qt obj =
     (if \<not> BoundaryContains (boundary qt) (QT_Object.pos obj) then Inr (False, qt)
      else if obj_count qt < capacity qt \<and> objects qt \<noteq> None then Inr (True, QT_store qt obj)
      else if QT_IsLeaf qt \<and> depth qt \<le> QT_MAX_DEPTH then
        (case QT_Subdivide qt of
           Inl e \<Rightarrow> Inl e
         | Inr qt1 \<Rightarrow>
            (case QT_Insert_branches qt1 obj of
               Inl e \<Rightarrow> Inl e
             | Inr (ok, qt2) \<Rightarrow> if ok then Inr (True, qt2) else QT_grow qt2 obj))
      else QT_grow qt obj)"
| "QT_Insert_branches qt obj =
     (case qt of
        Leaf _ _ _ _ \<Rightarrow> Inl Null_Branch
      | Quad b os c d n0 n1 n2 n3 \<Rightarrow>
         (case QT_Insert n0 obj of
            Inl e \<Rightarrow> Inl e
          | Inr (ok0, n0') \<Rightarrow>
             if ok0 then Inr (True, Quad b os c d n0' n1 n2 n3)
             else (case QT_Insert n1 obj of
                Inl e \<Rightarrow> Inl e
              | Inr (ok1, n1') \<Rightarrow>
                 if ok1 then Inr (True, Quad b os c d n0' n1' n2 n3)
                 else (case QT_Insert n2 obj of
                    Inl e \<Rightarrow> Inl e
                  | Inr (ok2, n2') \<Rightarrow>
                     if ok2 then Inr (True, Quad b os c d n0' n1' n2' n3)
                     else (case QT_Insert n3 obj of
                        Inl e \<Rightarrow> Inl e
                      | Inr (ok3, n3') \<Rightarrow> Inr (ok3, Quad b os c d n0' n1' n2' n3'))))))"
| "QT_push_down qt objs =
     (case objs of
        [] \<Rightarrow> Inr qt
      | obj # rest \<Rightarrow>
         (case QT_Insert_branches qt obj of
            Inl e \<Rightarrow> Inl e
          | Inr (_, qt') \<Rightarrow> QT_push_down qt' rest))"
| "QT_Subdivide qt =
     (let qt1 = Quad (boundary qt) (objects qt) (capacity qt) (depth qt)
                  (set_depth (QT_New (b_northwest (boundary qt)) (capacity qt)) (depth qt + 1))
                  (set_depth (QT_New (b_southwest (boundary qt)) (capacity qt)) (depth qt + 1))
                  (set_depth (QT_New (b_northeast (boundary qt)) (capacity qt)) (depth qt + 1))
                  (set_depth (QT_New (b_southeast (boundary qt)) (capacity qt)) (depth qt + 1))
      in case QT_push_down qt1 (buffer qt) of
           Inl e \<Rightarrow> Inl e
         | Inr qt2 \<Rightarrow> Inr (set_buffer qt2 None (capacity qt2)))"
  by pat_completeness auto

section \<open>Range query\<close>

text \<open>
  The caller's \<^verbatim>\<open>resultArray[0 .. *resultCount)\<close> is the list \<open>results\<close>; the
  source does not bound it, and neither does the model. The values the recursive calls
  return are dropped, as in the source.
\<close>

fun QT_Query :: "QuadTree \<Rightarrow> Boundary \<Rightarrow> QT_Object list \<Rightarrow> bool \<times> QT_Object list" where
  "QT_Query (Leaf b os c d) query results =
     (if \<not> BoundaryIntersects b query then (False, results)
      else (True, results @
              filter (\<lambda>obj. BoundaryContains query (QT_Object.pos obj)) (buffer (Leaf b os c d))))"
| "QT_Query (Quad b os c d n0 n1 n2 n3) query results =
     (if \<not> BoundaryIntersects b query then (False, results)
      else
        (let r = results @
               filter (\<lambda>obj. BoundaryContains query (QT_Object.pos obj))
                 (buffer (Quad b os c d n0 n1 n2 n3));
             r0 = snd (QT_Query n0 query r);
             r1 = snd (QT_Query n1 query r0);
             r2 = snd (QT_Query n2 query r1);
             r3 = snd (QT_Query n3 query r2)
         in (True, r3)))"

section \<open>Quadrants\<close>

text \<open>
  The children in slot order, and the slot that takes a point: the first child whose
  boundary contains it (4 when none does).
\<close>

fun first_containing :: "Boundary list \<Rightarrow> Vec2 \<Rightarrow> nat" where
  "first_containing [] p = 0"
| "first_containing (b # bs) p = (if BoundaryContains b p then 0 else Suc (first_containing bs p))"

definition child_boundaries :: "Boundary \<Rightarrow> Boundary list" where
  "child_boundaries b = [b_northwest b, b_southwest b, b_northeast b, b_southeast b]"

definition quadrant_of :: "Boundary \<Rightarrow> Vec2 \<Rightarrow> nat" where
  "quadrant_of b p = first_containing (child_boundaries b) p"

text \<open>The objects of a buffer whose position falls to slot \<open>k\<close>, in buffer order.\<close>

definition share :: "Boundary \<Rightarrow> nat \<Rightarrow> QT_Object list \<Rightarrow> QT_Object list" where
  "share b k xs = filter (\<lambda>obj. quadrant_of b (QT_Object.pos obj) = k) xs"

section \<open>Properties of whole trees\<close>

text \<open>
  The node that \<open>QT_Subdivide\<close> builds before it pushes the buffer down (lines 84 to
  107): four new leaves, each with the parent's capacity and the parent's depth plus one.
\<close>

definition fresh_quad :: "QuadTree \<Rightarrow> QuadTree" where
  "fresh_quad qt =
     Quad (boundary qt) (objects qt) (capacity qt) (depth qt)
       (set_depth (QT_New (b_northwest (boundary qt)) (capacity qt)) (depth qt + 1))
       (set_depth (QT_New (b_southwest (boundary qt)) (capacity qt)) (depth qt + 1))
       (set_depth (QT_New (b_northeast (boundary qt)) (capacity qt)) (depth qt + 1))
       (set_depth (QT_New (b_southeast (boundary qt)) (capacity qt)) (depth qt + 1))"

fun all_nodes :: "(QuadTree \<Rightarrow> bool) \<Rightarrow> QuadTree \<Rightarrow> bool" where
  "all_nodes P (Leaf b os c d) = P (Leaf b os c d)"
| "all_nodes P (Quad b os c d n0 n1 n2 n3) =
     (P (Quad b os c d n0 n1 n2 n3) \<and>
      all_nodes P n0 \<and> all_nodes P n1 \<and> all_nodes P n2 \<and> all_nodes P n3)"

definition depth_bounded :: "QuadTree \<Rightarrow> bool" where
  "depth_bounded qt = all_nodes (\<lambda>n. depth n \<le> QT_MAX_DEPTH + 1) qt"

definition within_capacity :: "QuadTree \<Rightarrow> bool" where
  "within_capacity qt = all_nodes (\<lambda>n. obj_count n \<le> capacity n) qt"

text \<open>
  A caller that inserts a sequence of objects at the root, one call of \<open>QT_Insert\<close> after
  the other, whatever each call returns.
\<close>

fun QT_Insert_all :: "QuadTree \<Rightarrow> QT_Object list \<Rightarrow> QT_Fault + QuadTree" where
  "QT_Insert_all qt [] = Inr qt"
| "QT_Insert_all qt (obj # objs) =
     (case QT_Insert qt obj of Inl e \<Rightarrow> Inl e | Inr (ok, qt') \<Rightarrow> QT_Insert_all qt' objs)"




text \<open>No internal node of the tree has a buffer.\<close>

definition internal_buffers_absent :: "QuadTree \<Rightarrow> bool" where
  "internal_buffers_absent qt = all_nodes (\<lambda>n. QT_IsLeaf n \<or> objects n = None) qt"

text \<open>
  The objects stored in a tree, in the order in which \<open>QT_Query\<close> visits them: the
  buffer of the node, then the objects of branch 0, 1, 2 and 3. A tree has its objects
  inside when every object stored in a subtree lies in the boundary of the root of that
  subtree.
\<close>

fun branch_list :: "QuadTree \<Rightarrow> QuadTree list" where
  "branch_list (Leaf b os c d) = []"
| "branch_list (Quad b os c d n0 n1 n2 n3) = [n0, n1, n2, n3]"

fun all_objects :: "QuadTree \<Rightarrow> QT_Object list" where
  "all_objects (Leaf b os c d) = buffer (Leaf b os c d)"
| "all_objects (Quad b os c d n0 n1 n2 n3) =
     buffer (Quad b os c d n0 n1 n2 n3) @
     all_objects n0 @ all_objects n1 @ all_objects n2 @ all_objects n3"

fun objects_inside :: "QuadTree \<Rightarrow> bool" where
  "objects_inside (Leaf b os c d) =
     list_all (\<lambda>obj. BoundaryContains b (QT_Object.pos obj)) (all_objects (Leaf b os c d))"
| "objects_inside (Quad b os c d n0 n1 n2 n3) =
     (list_all (\<lambda>obj. BoundaryContains b (QT_Object.pos obj))
        (all_objects (Quad b os c d n0 n1 n2 n3)) \<and>
      objects_inside n0 \<and> objects_inside n1 \<and> objects_inside n2 \<and> objects_inside n3)"

definition branch_objects :: "QuadTree \<Rightarrow> QT_Object list" where
  "branch_objects qt = concat (map all_objects (branch_list qt))"

definition branches_inside :: "QuadTree \<Rightarrow> bool" where
  "branches_inside qt = list_all objects_inside (branch_list qt)"

definition branch_boundaries :: "QuadTree \<Rightarrow> Boundary list" where
  "branch_boundaries qt = map boundary (branch_list qt)"



section \<open>Concrete inputs\<close>

text \<open>Shorthands for the rectangles and objects on which the theorems are instantiated.\<close>

definition box :: "real \<Rightarrow> real \<Rightarrow> real \<Rightarrow> real \<Rightarrow> Boundary" where
  "box cx cy hx hy = \<lparr> Boundary.pos = \<lparr> vx = cx, vy = cy \<rparr>, half_dim = \<lparr> vx = hx, vy = hy \<rparr> \<rparr>"

definition object_at :: "nat \<Rightarrow> real \<Rightarrow> real \<Rightarrow> QT_Object" where
  "object_at a px py = \<lparr> data = a, pos = \<lparr> vx = px, vy = py \<rparr> \<rparr>"

section \<open>Termination of insertion\<close>

lemma split_room_set_buffer [simp]: "split_room (set_buffer qt os c) = split_room qt"
  by (cases qt) (simp_all add: split_room_def QT_IsLeaf_def)

lemma branches_room_set_buffer [simp]: "branches_room (set_buffer qt os c) = branches_room qt"
  by (cases qt) simp_all

lemma QT_IsLeaf_set_buffer [simp]: "QT_IsLeaf (set_buffer qt os c) = QT_IsLeaf qt"
  by (cases qt) (simp_all add: QT_IsLeaf_def)

lemma split_room_not_leaf [simp]: "\<not> QT_IsLeaf qt \<Longrightarrow> split_room qt = 0"
  by (simp add: split_room_def)

lemma QT_grow_room:
  "QT_grow qt obj = Inr (ok, qt') \<Longrightarrow>
     split_room qt' = split_room qt \<and> QT_IsLeaf qt' = QT_IsLeaf qt"
  by (auto simp: QT_grow_def Let_def split: if_splits)

text \<open>
  Within the domain of the recursion, no call leaves a node with more room to subdivide
  than it had; this is what the nested calls need.
\<close>

lemma room_in_domain:
  "QT_Insert_QT_Insert_branches_QT_push_down_QT_Subdivide_dom (Inl (Inl (qt, obj))) \<Longrightarrow>
     (\<forall>ok qt'. QT_Insert qt obj = Inr (ok, qt') \<longrightarrow> split_room qt' \<le> split_room qt)"
  "QT_Insert_QT_Insert_branches_QT_push_down_QT_Subdivide_dom (Inl (Inr (qt, obj))) \<Longrightarrow>
     (\<forall>ok qt'. QT_Insert_branches qt obj = Inr (ok, qt') \<longrightarrow>
        \<not> QT_IsLeaf qt' \<and> branches_room qt' \<le> branches_room qt)"
  "QT_Insert_QT_Insert_branches_QT_push_down_QT_Subdivide_dom (Inr (Inl (qt, objs))) \<Longrightarrow>
     (\<forall>qt'. QT_push_down qt objs = Inr qt' \<longrightarrow> branches_room qt' \<le> branches_room qt)"
  "QT_Insert_QT_Insert_branches_QT_push_down_QT_Subdivide_dom (Inr (Inr qt)) \<Longrightarrow>
     (\<forall>qt'. QT_Subdivide qt = Inr qt' \<longrightarrow>
        branches_room qt' \<le> Suc (nat (QT_MAX_DEPTH - depth qt)))"
proof (induction rule: QT_Insert_QT_Insert_branches_QT_push_down_QT_Subdivide.pinduct)
  case (1 qt obj)
  define room where "room \<longleftrightarrow> obj_count qt < capacity qt \<and> objects qt \<noteq> None"
  define splits where "splits \<longleftrightarrow> QT_IsLeaf qt \<and> depth qt \<le> QT_MAX_DEPTH"
  note eq = QT_Insert.psimps [OF 1(1), folded room_def splits_def]
  show ?case
  proof (intro allI impI)
    fix ok qt'
    assume res: "QT_Insert qt obj = Inr (ok, qt')"
    show "split_room qt' \<le> split_room qt"
    proof (cases "BoundaryContains (boundary qt) (QT_Object.pos obj)")
      case False
      with res eq show ?thesis by simp
    next
      case inside: True
      show ?thesis
      proof (cases room)
        case True
        with res eq inside show ?thesis by (auto simp: QT_store_def)
      next
        case full: False
        show ?thesis
        proof (cases splits)
          case False
          with res eq inside full have "QT_grow qt obj = Inr (ok, qt')" by simp
          then show ?thesis by (simp add: QT_grow_room)
        next
          case True
          with res eq inside full obtain qt1 ok2 qt2 where
            sub: "QT_Subdivide qt = Inr qt1" and
            br: "QT_Insert_branches qt1 obj = Inr (ok2, qt2)" and
            fin: "(if ok2 then Inr (True, qt2) else QT_grow qt2 obj) = Inr (ok, qt')"
            by (auto split: sum.splits prod.splits)
          from inside full True have pre:
            "\<not> \<not> BoundaryContains (boundary qt) (QT_Object.pos obj)"
            "\<not> (obj_count qt < capacity qt \<and> objects qt \<noteq> None)"
            "QT_IsLeaf qt \<and> depth qt \<le> QT_MAX_DEPTH"
            by (simp_all add: room_def splits_def)
          from 1(3) [OF pre sub] br have "\<not> QT_IsLeaf qt2" by simp
          moreover from fin have "QT_IsLeaf qt' = QT_IsLeaf qt2"
            by (auto split: if_splits dest: QT_grow_room)
          ultimately show ?thesis by simp
        qed
      qed
    qed
  qed
next
  case (2 qt obj)
  note eq = QT_Insert_branches.psimps [OF 2(1)]
  show ?case
  proof (intro allI impI)
    fix ok qt'
    assume res: "QT_Insert_branches qt obj = Inr (ok, qt')"
    show "\<not> QT_IsLeaf qt' \<and> branches_room qt' \<le> branches_room qt"
    proof (cases qt)
      case (Leaf b os c d)
      with res eq show ?thesis by simp
    next
      case (Quad b os c d n0 n1 n2 n3)
      from res eq Quad obtain ok0 n0' where r0: "QT_Insert n0 obj = Inr (ok0, n0')"
        by (auto split: sum.splits)
      from 2(2) [OF Quad] r0 have m0: "split_room n0' \<le> split_room n0" by simp
      show ?thesis
      proof (cases ok0)
        case True
        with res eq Quad r0 have "qt' = Quad b os c d n0' n1 n2 n3" by simp
        with m0 Quad show ?thesis by (auto simp: QT_IsLeaf_def)
      next
        case f0: False
        with res eq Quad r0 obtain ok1 n1' where r1: "QT_Insert n1 obj = Inr (ok1, n1')"
          by (auto split: sum.splits)
        from 2(3) [OF Quad r0 refl f0] r1 have m1: "split_room n1' \<le> split_room n1" by simp
        show ?thesis
        proof (cases ok1)
          case True
          with res eq Quad r0 f0 r1 have "qt' = Quad b os c d n0' n1' n2 n3" by simp
          with m0 m1 Quad show ?thesis by (auto simp: QT_IsLeaf_def)
        next
          case f1: False
          with res eq Quad r0 f0 r1 obtain ok2 n2' where r2: "QT_Insert n2 obj = Inr (ok2, n2')"
            by (auto split: sum.splits)
          from 2(4) [OF Quad r0 refl f0 r1 refl f1] r2
          have m2: "split_room n2' \<le> split_room n2" by simp
          show ?thesis
          proof (cases ok2)
            case True
            with res eq Quad r0 f0 r1 f1 r2 have "qt' = Quad b os c d n0' n1' n2' n3" by simp
            with m0 m1 m2 Quad show ?thesis by (auto simp: QT_IsLeaf_def)
          next
            case f2: False
            with res eq Quad r0 f0 r1 f1 r2 obtain ok3 n3' where
              r3: "QT_Insert n3 obj = Inr (ok3, n3')"
              by (auto split: sum.splits)
            from 2(5) [OF Quad r0 refl f0 r1 refl f1 r2 refl f2] r3
            have m3: "split_room n3' \<le> split_room n3" by simp
            from res eq Quad r0 f0 r1 f1 r2 f2 r3 have "qt' = Quad b os c d n0' n1' n2' n3'"
              by simp
            with m0 m1 m2 m3 Quad show ?thesis by (auto simp: QT_IsLeaf_def)
          qed
        qed
      qed
    qed
  qed
next
  case (3 qt objs)
  note eq = QT_push_down.psimps [OF 3(1)]
  show ?case
  proof (intro allI impI)
    fix qt'
    assume res: "QT_push_down qt objs = Inr qt'"
    show "branches_room qt' \<le> branches_room qt"
    proof (cases objs)
      case Nil
      with res eq show ?thesis by simp
    next
      case (Cons obj rest)
      with res eq obtain ok qt1 where
        br: "QT_Insert_branches qt obj = Inr (ok, qt1)" and
        tl: "QT_push_down qt1 rest = Inr qt'"
        by (auto split: sum.splits prod.splits)
      from 3(2) [OF Cons] br have "branches_room qt1 \<le> branches_room qt" by simp
      moreover from 3(3) [OF Cons br refl] tl have "branches_room qt' \<le> branches_room qt1"
        by simp
      ultimately show ?thesis by simp
    qed
  qed
next
  case (4 qt)
  note eq = QT_Subdivide.psimps [OF 4(1)]
  show ?case
  proof (intro allI impI)
    fix qt'
    assume res: "QT_Subdivide qt = Inr qt'"
    define qt1 where "qt1 = Quad (boundary qt) (objects qt) (capacity qt) (depth qt)
       (set_depth (QT_New (b_northwest (boundary qt)) (capacity qt)) (depth qt + 1))
       (set_depth (QT_New (b_southwest (boundary qt)) (capacity qt)) (depth qt + 1))
       (set_depth (QT_New (b_northeast (boundary qt)) (capacity qt)) (depth qt + 1))
       (set_depth (QT_New (b_southeast (boundary qt)) (capacity qt)) (depth qt + 1))"
    from res eq obtain qt2 where
      pd: "QT_push_down qt1 (buffer qt) = Inr qt2" and
      fin: "qt' = set_buffer qt2 None (capacity qt2)"
      by (auto simp: Let_def qt1_def split: sum.splits)
    from 4(2) [OF qt1_def] pd
    have "branches_room qt2 \<le> branches_room qt1" by simp
    also have "branches_room qt1 = Suc (nat (QT_MAX_DEPTH - depth qt))"
      by (simp add: qt1_def QT_New_def split_room_def QT_IsLeaf_def)
    finally show "branches_room qt' \<le> Suc (nat (QT_MAX_DEPTH - depth qt))"
      using fin by simp
  qed
qed

termination QT_Insert
proof (relation "inv_image (less_than <*lex*> less_than <*lex*> less_than) call_rank")
  show "wf (inv_image (less_than <*lex*> less_than <*lex*> less_than) call_rank)"
    by (intro wf_inv_image wf_lex_prod wf_less_than)
qed (auto simp: split_room_def QT_New_def QT_IsLeaf_def dest: room_in_domain)

declare QT_Insert.simps [simp del] QT_Insert_branches.simps [simp del]
  QT_push_down.simps [simp del] QT_Subdivide.simps [simp del]

section \<open>Basic facts about the operations\<close>

lemma QT_Insert_outside:
  "\<not> BoundaryContains (boundary qt) (QT_Object.pos obj) \<Longrightarrow> QT_Insert qt obj = Inr (False, qt)"
  by (simp add: QT_Insert.simps)

lemma QT_grow_True: "QT_grow qt obj = Inr (ok, qt') \<Longrightarrow> ok"
  by (auto simp: QT_grow_def Let_def split: if_splits)

lemma QT_Insert_inside:
  "BoundaryContains (boundary qt) (QT_Object.pos obj) \<Longrightarrow> QT_Insert qt obj = Inr (ok, qt') \<Longrightarrow> ok"
  by (auto simp: QT_Insert.simps [of qt obj] split: if_splits sum.splits prod.splits
      dest: QT_grow_True)

lemma QT_grow_Inr:
  "QT_grow qt obj = Inr (ok, q) \<Longrightarrow>
     ok \<and> q = set_buffer qt (Some (buffer qt @ [obj])) (capacity qt * 2) \<and>
     capacity qt * 2 \<le> INT_MAX \<and> obj_count qt < capacity qt * 2"
  by (auto simp: QT_grow_def Let_def split: if_splits)

lemma QT_push_down_Nil [simp]: "QT_push_down qt [] = Inr qt"
  by (simp add: QT_push_down.simps)

lemma QT_push_down_Cons [simp]:
  "QT_push_down qt (obj # rest) =
     (case QT_Insert_branches qt obj of Inl e \<Rightarrow> Inl e | Inr (ok, qt') \<Rightarrow> QT_push_down qt' rest)"
  by (simp add: QT_push_down.simps [of qt "obj # rest"])

lemma QT_Subdivide_fresh_quad:
  "QT_Subdivide qt =
     (case QT_push_down (fresh_quad qt) (buffer qt) of
        Inl e \<Rightarrow> Inl e
      | Inr qt2 \<Rightarrow> Inr (set_buffer qt2 None (capacity qt2)))"
  by (simp add: QT_Subdivide.simps [of qt] fresh_quad_def Let_def)

lemma set_buffer_fields [simp]:
  "boundary (set_buffer qt os c) = boundary qt"
  "objects (set_buffer qt os c) = os"
  "capacity (set_buffer qt os c) = c"
  "depth (set_buffer qt os c) = depth qt"
  "branch_list (set_buffer qt os c) = branch_list qt"
  by (cases qt; simp)+

lemma set_buffer_branches [simp]:
  "branch_objects (set_buffer qt os c) = branch_objects qt"
  "branches_inside (set_buffer qt os c) = branches_inside qt"
  "branch_boundaries (set_buffer qt os c) = branch_boundaries qt"
  by (simp_all add: branch_objects_def branches_inside_def branch_boundaries_def)

lemma buffer_set_buffer [simp]:
  "buffer (set_buffer qt (Some xs) c) = xs" "buffer (set_buffer qt None c) = []"
  by (simp_all add: buffer_def)

lemma obj_count_nonneg [simp]: "0 \<le> obj_count qt"
  by (simp add: obj_count_def)

lemma fresh_quad_fields [simp]:
  "boundary (fresh_quad qt) = boundary qt"
  "objects (fresh_quad qt) = objects qt"
  "branch_boundaries (fresh_quad qt) = child_boundaries (boundary qt)"
  "branch_objects (fresh_quad qt) = []"
  "branches_inside (fresh_quad qt)"
  "\<not> QT_IsLeaf (fresh_quad qt)"
  by (simp_all add: fresh_quad_def branch_boundaries_def child_boundaries_def QT_New_def
      branch_objects_def branches_inside_def buffer_def QT_IsLeaf_def)



text \<open>The definitions that evaluate the operations on concrete inputs.\<close>

lemmas eval_simps = QT_Insert.simps QT_Insert_branches.simps QT_push_down.simps QT_Subdivide.simps
  QT_New_def box_def object_at_def BoundaryContains_def obj_count_def buffer_def QT_store_def
  QT_grow_def QT_IsLeaf_def QT_MAX_DEPTH_def INT_MAX_def INT_MIN_def Let_def
  b_northwest_def b_southwest_def b_northeast_def b_southeast_def child_half_width_def child_half_height_def

lemma three_inserts:
  "QT_Insert_all (QT_New (box 0 0 100 100) 1)
     [object_at 1 (- 10) (- 10), object_at 2 10 10, object_at 3 20 20] =
   Inr (Quad (box 0 0 100 100) (Some [object_at 3 20 20]) 2 1
     (Leaf (box (- 50) (- 50) 50 50) (Some [object_at 1 (- 10) (- 10)]) 1 2)
     (Leaf (box (- 50) 50 50 50) (Some []) 1 2)
     (Leaf (box 50 (- 50) 50 50) (Some []) 1 2)
     (Leaf (box 50 50 50 50) (Some [object_at 2 10 10]) 1 2))"
  by (simp add: eval_simps)

section \<open>Geometry of the four children\<close>

lemma child_boundary_contains:
  "BoundaryContains (b_northwest b) p \<longleftrightarrow>
     vx (Boundary.pos b) - vx (half_dim b) \<le> vx p \<and> vx p \<le> vx (Boundary.pos b) \<and>
     vy (Boundary.pos b) - vy (half_dim b) \<le> vy p \<and> vy p \<le> vy (Boundary.pos b)"
  "BoundaryContains (b_southwest b) p \<longleftrightarrow>
     vx (Boundary.pos b) - vx (half_dim b) \<le> vx p \<and> vx p \<le> vx (Boundary.pos b) \<and>
     vy (Boundary.pos b) \<le> vy p \<and> vy p \<le> vy (Boundary.pos b) + vy (half_dim b)"
  "BoundaryContains (b_northeast b) p \<longleftrightarrow>
     vx (Boundary.pos b) \<le> vx p \<and> vx p \<le> vx (Boundary.pos b) + vx (half_dim b) \<and>
     vy (Boundary.pos b) - vy (half_dim b) \<le> vy p \<and> vy p \<le> vy (Boundary.pos b)"
  "BoundaryContains (b_southeast b) p \<longleftrightarrow>
     vx (Boundary.pos b) \<le> vx p \<and> vx p \<le> vx (Boundary.pos b) + vx (half_dim b) \<and>
     vy (Boundary.pos b) \<le> vy p \<and> vy p \<le> vy (Boundary.pos b) + vy (half_dim b)"
  by (auto simp: BoundaryContains_def b_northwest_def b_southwest_def b_northeast_def
      b_southeast_def child_half_width_def child_half_height_def Let_def field_simps)

lemma children_cover:
  "BoundaryContains b p \<longleftrightarrow>
     BoundaryContains (b_northwest b) p \<or> BoundaryContains (b_southwest b) p \<or>
     BoundaryContains (b_northeast b) p \<or> BoundaryContains (b_southeast b) p"
  unfolding child_boundary_contains by (auto simp: BoundaryContains_def)





lemma length_share: "length (share b k xs) \<le> length xs"
  by (simp add: share_def)

section \<open>Subdivision of a node within its capacity\<close>

lemma QT_Insert_Leaf_room:
  "BoundaryContains b (QT_Object.pos obj) \<Longrightarrow> int (length ys) < c \<Longrightarrow>
     QT_Insert (Leaf b (Some ys) c d) obj = Inr (True, Leaf b (Some (ys @ [obj])) c d)"
  by (simp add: QT_Insert.simps obj_count_def buffer_def QT_store_def)

lemma QT_Insert_branches_Quad:
  "QT_Insert_branches (Quad b os c d n0 n1 n2 n3) obj =
     (if BoundaryContains (boundary n0) (QT_Object.pos obj) then
        (case QT_Insert n0 obj of Inl e \<Rightarrow> Inl e
         | Inr (ok, n0') \<Rightarrow> Inr (True, Quad b os c d n0' n1 n2 n3))
      else if BoundaryContains (boundary n1) (QT_Object.pos obj) then
        (case QT_Insert n1 obj of Inl e \<Rightarrow> Inl e
         | Inr (ok, n1') \<Rightarrow> Inr (True, Quad b os c d n0 n1' n2 n3))
      else if BoundaryContains (boundary n2) (QT_Object.pos obj) then
        (case QT_Insert n2 obj of Inl e \<Rightarrow> Inl e
         | Inr (ok, n2') \<Rightarrow> Inr (True, Quad b os c d n0 n1 n2' n3))
      else if BoundaryContains (boundary n3) (QT_Object.pos obj) then
        (case QT_Insert n3 obj of Inl e \<Rightarrow> Inl e
         | Inr (ok, n3') \<Rightarrow> Inr (True, Quad b os c d n0 n1 n2 n3'))
      else Inr (False, Quad b os c d n0 n1 n2 n3))"
  by (auto simp: QT_Insert_branches.simps [of "Quad b os c d n0 n1 n2 n3"] QT_Insert_outside
      split: sum.splits dest: QT_Insert_inside)

lemma push_down_leaves:
  "int (length ys0 + length rest) \<le> c \<Longrightarrow> int (length ys1 + length rest) \<le> c \<Longrightarrow>
   int (length ys2 + length rest) \<le> c \<Longrightarrow> int (length ys3 + length rest) \<le> c \<Longrightarrow>
   QT_push_down (Quad b os c' d (Leaf b0 (Some ys0) c d') (Leaf b1 (Some ys1) c d')
                   (Leaf b2 (Some ys2) c d') (Leaf b3 (Some ys3) c d')) rest =
     Inr (Quad b os c' d
       (Leaf b0 (Some (ys0 @ filter (\<lambda>obj. first_containing [b0, b1, b2, b3] (QT_Object.pos obj) = 0) rest)) c d')
       (Leaf b1 (Some (ys1 @ filter (\<lambda>obj. first_containing [b0, b1, b2, b3] (QT_Object.pos obj) = 1) rest)) c d')
       (Leaf b2 (Some (ys2 @ filter (\<lambda>obj. first_containing [b0, b1, b2, b3] (QT_Object.pos obj) = 2) rest)) c d')
       (Leaf b3 (Some (ys3 @ filter (\<lambda>obj. first_containing [b0, b1, b2, b3] (QT_Object.pos obj) = 3) rest)) c d'))"
proof (induction rest arbitrary: ys0 ys1 ys2 ys3)
  case Nil
  then show ?case by simp
next
  case (Cons obj rest)
  then show ?case
    by (simp add: QT_Insert_branches_Quad QT_Insert_Leaf_room)
qed

lemma QT_Subdivide_exact:
  assumes "obj_count qt \<le> capacity qt"
  shows "QT_Subdivide qt =
     Inr (Quad (boundary qt) None (capacity qt) (depth qt)
       (Leaf (b_northwest (boundary qt)) (Some (share (boundary qt) 0 (buffer qt))) (capacity qt) (depth qt + 1))
       (Leaf (b_southwest (boundary qt)) (Some (share (boundary qt) 1 (buffer qt))) (capacity qt) (depth qt + 1))
       (Leaf (b_northeast (boundary qt)) (Some (share (boundary qt) 2 (buffer qt))) (capacity qt) (depth qt + 1))
       (Leaf (b_southeast (boundary qt)) (Some (share (boundary qt) 3 (buffer qt))) (capacity qt) (depth qt + 1)))"
  using assms
  by (simp add: QT_Subdivide.simps [of qt] Let_def QT_New_def push_down_leaves obj_count_def
      share_def quadrant_of_def child_boundaries_def)

text \<open>A node within its capacity, whose doubled capacity fits, takes every insertion.\<close>

lemma QT_Insert_returns:
  assumes "obj_count qt \<le> capacity qt" and "1 \<le> capacity qt" and "2 * capacity qt \<le> INT_MAX"
  shows "\<exists>q. QT_Insert qt obj = Inr (BoundaryContains (boundary qt) (QT_Object.pos obj), q)"
  using assms
proof (induction "split_room qt" arbitrary: qt rule: less_induct)
  case less
  define room where "room \<longleftrightarrow> obj_count qt < capacity qt \<and> objects qt \<noteq> None"
  define splits where "splits \<longleftrightarrow> QT_IsLeaf qt \<and> depth qt \<le> QT_MAX_DEPTH"
  note eq = QT_Insert.simps [of qt obj, folded room_def splits_def]
  show ?case
  proof (cases "BoundaryContains (boundary qt) (QT_Object.pos obj)")
    case False
    then show ?thesis by (simp add: QT_Insert_outside)
  next
    case inside: True
    show ?thesis
    proof (cases room)
      case True
      with eq inside show ?thesis by simp
    next
      case full: False
      show ?thesis
      proof (cases splits)
        case False
        from less.prems have "QT_grow qt obj =
            Inr (True, set_buffer qt (Some (buffer qt @ [obj])) (capacity qt * 2))"
          by (simp add: QT_grow_def Let_def INT_MIN_def)
        with eq inside full False show ?thesis by simp
      next
        case True
        let ?c = "capacity qt" and ?d = "depth qt + 1" and ?b = "boundary qt"
        let ?n0 = "Leaf (b_northwest ?b) (Some (share ?b 0 (buffer qt))) ?c ?d"
        let ?n1 = "Leaf (b_southwest ?b) (Some (share ?b 1 (buffer qt))) ?c ?d"
        let ?n2 = "Leaf (b_northeast ?b) (Some (share ?b 2 (buffer qt))) ?c ?d"
        let ?n3 = "Leaf (b_southeast ?b) (Some (share ?b 3 (buffer qt))) ?c ?d"
        have sub: "QT_Subdivide qt = Inr (Quad ?b None ?c (depth qt) ?n0 ?n1 ?n2 ?n3)"
          by (rule QT_Subdivide_exact [OF less.prems(1)])
        have child: "\<exists>q. QT_Insert (Leaf bd (Some (share ?b k (buffer qt))) ?c ?d) obj =
            Inr (BoundaryContains bd (QT_Object.pos obj), q)" for bd k
        proof -
          let ?n = "Leaf bd (Some (share ?b k (buffer qt))) ?c ?d"
          from True have "split_room ?n < split_room qt"
            by (simp add: split_room_def splits_def QT_IsLeaf_def)
          moreover from less.prems(1) length_share [of ?b k "buffer qt"]
          have "obj_count ?n \<le> capacity ?n"
            by (simp add: obj_count_def buffer_def)
          moreover from less.prems have "1 \<le> capacity ?n" "2 * capacity ?n \<le> INT_MAX"
            by simp_all
          ultimately show ?thesis using less.hyps [of ?n] by simp
        qed
        from inside have "BoundaryContains (b_northwest ?b) (QT_Object.pos obj) \<or>
            BoundaryContains (b_southwest ?b) (QT_Object.pos obj) \<or>
            BoundaryContains (b_northeast ?b) (QT_Object.pos obj) \<or>
            BoundaryContains (b_southeast ?b) (QT_Object.pos obj)"
          by (simp add: children_cover [of ?b])
        with child [of "b_northwest ?b" 0] child [of "b_southwest ?b" 1]
          child [of "b_northeast ?b" 2] child [of "b_southeast ?b" 3]
        have "\<exists>q. QT_Insert_branches (Quad ?b None ?c (depth qt) ?n0 ?n1 ?n2 ?n3) obj = Inr (True, q)"
          unfolding QT_Insert_branches_Quad by auto
        with eq inside full True sub show ?thesis by auto
      qed
    qed
  qed
qed

section \<open>Induction over the calls of an insertion\<close>

lemma QT_Insert_induct [case_names insert branches_leaf branches_quad push_nil push_cons subdivide]:
  fixes I B :: "QuadTree \<Rightarrow> QT_Object \<Rightarrow> bool"
    and Pd :: "QuadTree \<Rightarrow> QT_Object list \<Rightarrow> bool" and S :: "QuadTree \<Rightarrow> bool"
  assumes ins: "\<And>qt obj.
      (\<lbrakk>BoundaryContains (boundary qt) (QT_Object.pos obj);
        \<not> (obj_count qt < capacity qt \<and> objects qt \<noteq> None);
        QT_IsLeaf qt; depth qt \<le> QT_MAX_DEPTH\<rbrakk> \<Longrightarrow> S qt) \<Longrightarrow>
      (\<And>qt1. \<lbrakk>BoundaryContains (boundary qt) (QT_Object.pos obj);
        \<not> (obj_count qt < capacity qt \<and> objects qt \<noteq> None);
        QT_IsLeaf qt; depth qt \<le> QT_MAX_DEPTH; QT_Subdivide qt = Inr qt1\<rbrakk> \<Longrightarrow> B qt1 obj) \<Longrightarrow>
      I qt obj"
    and bleaf: "\<And>b os c d obj. B (Leaf b os c d) obj"
    and bquad: "\<And>b os c d n0 n1 n2 n3 obj.
      I n0 obj \<Longrightarrow>
      (\<not> BoundaryContains (boundary n0) (QT_Object.pos obj) \<Longrightarrow> I n1 obj) \<Longrightarrow>
      (\<lbrakk>\<not> BoundaryContains (boundary n0) (QT_Object.pos obj);
        \<not> BoundaryContains (boundary n1) (QT_Object.pos obj)\<rbrakk> \<Longrightarrow> I n2 obj) \<Longrightarrow>
      (\<lbrakk>\<not> BoundaryContains (boundary n0) (QT_Object.pos obj);
        \<not> BoundaryContains (boundary n1) (QT_Object.pos obj);
        \<not> BoundaryContains (boundary n2) (QT_Object.pos obj)\<rbrakk> \<Longrightarrow> I n3 obj) \<Longrightarrow>
      B (Quad b os c d n0 n1 n2 n3) obj"
    and pnil: "\<And>qt. Pd qt []"
    and pcons: "\<And>qt obj rest.
      B qt obj \<Longrightarrow>
      (\<And>ok qt'. QT_Insert_branches qt obj = Inr (ok, qt') \<Longrightarrow> Pd qt' rest) \<Longrightarrow>
      Pd qt (obj # rest)"
    and sub: "\<And>qt. Pd (fresh_quad qt) (buffer qt) \<Longrightarrow> S qt"
  shows "I qt obj" and "B qt' obj'" and "Pd qt'' objs" and "S qt'''"
proof (induction qt obj and qt' obj' and qt'' objs and qt'''
    rule: QT_Insert_QT_Insert_branches_QT_push_down_QT_Subdivide.induct)
  case (1 qt obj)
  show ?case
  proof (rule ins)
    assume "BoundaryContains (boundary qt) (QT_Object.pos obj)"
      "\<not> (obj_count qt < capacity qt \<and> objects qt \<noteq> None)"
      "QT_IsLeaf qt" "depth qt \<le> QT_MAX_DEPTH"
    then show "S qt" by (intro 1(1)) simp_all
  next
    fix qt1
    assume "BoundaryContains (boundary qt) (QT_Object.pos obj)"
      "\<not> (obj_count qt < capacity qt \<and> objects qt \<noteq> None)"
      "QT_IsLeaf qt" "depth qt \<le> QT_MAX_DEPTH" "QT_Subdivide qt = Inr qt1"
    then show "B qt1 obj" by (intro 1(2)) simp_all
  qed
next
  case (2 qt obj)
  show ?case
  proof (cases qt)
    case (Leaf b os c d)
    then show ?thesis by (simp add: bleaf)
  next
    case (Quad b os c d n0 n1 n2 n3)
    have "B (Quad b os c d n0 n1 n2 n3) obj"
    proof (rule bquad)
      show "I n0 obj" by (rule 2(1) [OF Quad])
    next
      assume "\<not> BoundaryContains (boundary n0) (QT_Object.pos obj)"
      then have r0: "QT_Insert n0 obj = Inr (False, n0)" by (rule QT_Insert_outside)
      show "I n1 obj" by (rule 2(2) [OF Quad r0 refl]) simp
    next
      assume "\<not> BoundaryContains (boundary n0) (QT_Object.pos obj)"
        "\<not> BoundaryContains (boundary n1) (QT_Object.pos obj)"
      then have r: "QT_Insert n0 obj = Inr (False, n0)" "QT_Insert n1 obj = Inr (False, n1)"
        by (simp_all add: QT_Insert_outside)
      show "I n2 obj" by (rule 2(3) [OF Quad r(1) refl _ r(2) refl]) simp_all
    next
      assume "\<not> BoundaryContains (boundary n0) (QT_Object.pos obj)"
        "\<not> BoundaryContains (boundary n1) (QT_Object.pos obj)"
        "\<not> BoundaryContains (boundary n2) (QT_Object.pos obj)"
      then have r: "QT_Insert n0 obj = Inr (False, n0)" "QT_Insert n1 obj = Inr (False, n1)"
        "QT_Insert n2 obj = Inr (False, n2)"
        by (simp_all add: QT_Insert_outside)
      show "I n3 obj"
        by (rule 2(4) [OF Quad r(1) refl _ r(2) refl _ r(3) refl]) simp_all
    qed
    with Quad show ?thesis by simp
  qed
next
  case (3 qt objs)
  show ?case
  proof (cases objs)
    case Nil
    then show ?thesis by (simp add: pnil)
  next
    case (Cons obj rest)
    have "Pd qt (obj # rest)"
    proof (rule pcons)
      show "B qt obj" by (rule 3(1) [OF Cons])
    next
      fix ok qt'
      assume "QT_Insert_branches qt obj = Inr (ok, qt')"
      then show "Pd qt' rest" by (rule 3(2) [OF Cons _ refl])
    qed
    with Cons show ?thesis by simp
  qed
next
  case (4 qt)
  show ?case by (rule sub) (rule 4 [OF fresh_quad_def [of qt]])
qed

lemma QT_Insert_Inr_cases [consumes 1, case_names outside store split grow]:
  assumes "QT_Insert qt obj = Inr (ok, q)"
  obtains
    (outside) "\<not> BoundaryContains (boundary qt) (QT_Object.pos obj)" "\<not> ok" "q = qt"
  | (store) "BoundaryContains (boundary qt) (QT_Object.pos obj)"
      "obj_count qt < capacity qt" "objects qt \<noteq> None" "ok" "q = QT_store qt obj"
  | (split) qt1 ok2 qt2 where "BoundaryContains (boundary qt) (QT_Object.pos obj)"
      "\<not> (obj_count qt < capacity qt \<and> objects qt \<noteq> None)"
      "QT_IsLeaf qt" "depth qt \<le> QT_MAX_DEPTH"
      "QT_Subdivide qt = Inr qt1" "QT_Insert_branches qt1 obj = Inr (ok2, qt2)" "ok"
      "if ok2 then q = qt2 else QT_grow qt2 obj = Inr (True, q)"
  | (grow) "BoundaryContains (boundary qt) (QT_Object.pos obj)"
      "\<not> (obj_count qt < capacity qt \<and> objects qt \<noteq> None)"
      "\<not> (QT_IsLeaf qt \<and> depth qt \<le> QT_MAX_DEPTH)" "ok" "QT_grow qt obj = Inr (True, q)"
proof -
  define room where "room \<longleftrightarrow> obj_count qt < capacity qt \<and> objects qt \<noteq> None"
  define splits where "splits \<longleftrightarrow> QT_IsLeaf qt \<and> depth qt \<le> QT_MAX_DEPTH"
  note eq = QT_Insert.simps [of qt obj, folded room_def splits_def]
  show thesis
  proof (cases "BoundaryContains (boundary qt) (QT_Object.pos obj)")
    case False
    with assms eq show ?thesis by (intro outside) simp_all
  next
    case inside: True
    show ?thesis
    proof (cases room)
      case True
      with assms eq inside show ?thesis by (intro store) (simp_all add: room_def)
    next
      case full: False
      show ?thesis
      proof (cases splits)
        case False
        with assms eq inside full have g: "QT_grow qt obj = Inr (ok, q)" by simp
        then have ok by (rule QT_grow_True)
        with g inside full False show ?thesis
          by (intro grow) (simp_all add: room_def splits_def)
      next
        case True
        with assms eq inside full obtain qt1 ok2 qt2 where
          sub: "QT_Subdivide qt = Inr qt1" and
          br: "QT_Insert_branches qt1 obj = Inr (ok2, qt2)" and
          fin: "(if ok2 then Inr (True, qt2) else QT_grow qt2 obj) = Inr (ok, q)"
          by (auto split: sum.splits prod.splits)
        from fin have ok by (auto split: if_splits dest: QT_grow_Inr)
        with fin have "if ok2 then q = qt2 else QT_grow qt2 obj = Inr (True, q)"
          by (auto split: if_splits)
        with sub br inside full True \<open>ok\<close> show ?thesis
          by (intro split [of qt1 ok2 qt2]) (simp_all add: room_def splits_def)
      qed
    qed
  qed
qed

lemma QT_Insert_branches_Inr_cases [consumes 1, case_names branch0 branch1 branch2 branch3 none]:
  assumes "QT_Insert_branches (Quad b os c d n0 n1 n2 n3) obj = Inr (ok, q)"
  obtains
    (branch0) n' where "BoundaryContains (boundary n0) (QT_Object.pos obj)"
      "QT_Insert n0 obj = Inr (True, n')" "ok" "q = Quad b os c d n' n1 n2 n3"
  | (branch1) n' where "\<not> BoundaryContains (boundary n0) (QT_Object.pos obj)"
      "BoundaryContains (boundary n1) (QT_Object.pos obj)"
      "QT_Insert n1 obj = Inr (True, n')" "ok" "q = Quad b os c d n0 n' n2 n3"
  | (branch2) n' where "\<not> BoundaryContains (boundary n0) (QT_Object.pos obj)"
      "\<not> BoundaryContains (boundary n1) (QT_Object.pos obj)"
      "BoundaryContains (boundary n2) (QT_Object.pos obj)"
      "QT_Insert n2 obj = Inr (True, n')" "ok" "q = Quad b os c d n0 n1 n' n3"
  | (branch3) n' where "\<not> BoundaryContains (boundary n0) (QT_Object.pos obj)"
      "\<not> BoundaryContains (boundary n1) (QT_Object.pos obj)"
      "\<not> BoundaryContains (boundary n2) (QT_Object.pos obj)"
      "BoundaryContains (boundary n3) (QT_Object.pos obj)"
      "QT_Insert n3 obj = Inr (True, n')" "ok" "q = Quad b os c d n0 n1 n2 n'"
  | (none) "\<not> BoundaryContains (boundary n0) (QT_Object.pos obj)"
      "\<not> BoundaryContains (boundary n1) (QT_Object.pos obj)"
      "\<not> BoundaryContains (boundary n2) (QT_Object.pos obj)"
      "\<not> BoundaryContains (boundary n3) (QT_Object.pos obj)"
      "\<not> ok" "q = Quad b os c d n0 n1 n2 n3"
proof -
  note eq = assms [unfolded QT_Insert_branches_Quad]
  consider (c0) "BoundaryContains (boundary n0) (QT_Object.pos obj)"
    | (c1) "\<not> BoundaryContains (boundary n0) (QT_Object.pos obj)"
        "BoundaryContains (boundary n1) (QT_Object.pos obj)"
    | (c2) "\<not> BoundaryContains (boundary n0) (QT_Object.pos obj)"
        "\<not> BoundaryContains (boundary n1) (QT_Object.pos obj)"
        "BoundaryContains (boundary n2) (QT_Object.pos obj)"
    | (c3) "\<not> BoundaryContains (boundary n0) (QT_Object.pos obj)"
        "\<not> BoundaryContains (boundary n1) (QT_Object.pos obj)"
        "\<not> BoundaryContains (boundary n2) (QT_Object.pos obj)"
        "BoundaryContains (boundary n3) (QT_Object.pos obj)"
    | (c4) "\<not> BoundaryContains (boundary n0) (QT_Object.pos obj)"
        "\<not> BoundaryContains (boundary n1) (QT_Object.pos obj)"
        "\<not> BoundaryContains (boundary n2) (QT_Object.pos obj)"
        "\<not> BoundaryContains (boundary n3) (QT_Object.pos obj)"
    by blast
  then show thesis
  proof cases
    case c0
    with eq obtain k n' where r: "QT_Insert n0 obj = Inr (k, n')" "ok" "q = Quad b os c d n' n1 n2 n3"
      by (auto split: sum.splits)
    with c0 have k by (auto dest: QT_Insert_inside)
    with r c0 show ?thesis by (intro branch0 [of n']) simp_all
  next
    case c1
    with eq obtain k n' where r: "QT_Insert n1 obj = Inr (k, n')" "ok" "q = Quad b os c d n0 n' n2 n3"
      by (auto split: sum.splits)
    with c1 have k by (auto dest: QT_Insert_inside)
    with r c1 show ?thesis by (intro branch1 [of n']) simp_all
  next
    case c2
    with eq obtain k n' where r: "QT_Insert n2 obj = Inr (k, n')" "ok" "q = Quad b os c d n0 n1 n' n3"
      by (auto split: sum.splits)
    with c2 have k by (auto dest: QT_Insert_inside)
    with r c2 show ?thesis by (intro branch2 [of n']) simp_all
  next
    case c3
    with eq obtain k n' where r: "QT_Insert n3 obj = Inr (k, n')" "ok" "q = Quad b os c d n0 n1 n2 n'"
      by (auto split: sum.splits)
    with c3 have k by (auto dest: QT_Insert_inside)
    with r c3 show ?thesis by (intro branch3 [of n']) simp_all
  next
    case c4
    with eq show ?thesis by (intro none) simp_all
  qed
qed

section \<open>Stored objects: none lost, none duplicated\<close>




section \<open>C1: a query over the whole boundary\<close>












section \<open>C2: insertion into an internal node\<close>

text \<open>
  C2. After the root of capacity 1 has been subdivided by the second insertion, no
  internal node has a buffer; the third insertion reaches the root, which is internal,
  falls through to the reallocation at the end of \<open>QT_Insert\<close> and stores the object in
  the root's own new buffer.
\<close>

theorem QT_Insert_buffers_internal_node:
  "map_sum id internal_buffers_absent
     (QT_Insert_all (QT_New (box 0 0 100 100) 1)
        [object_at 1 (- 10) (- 10), object_at 2 10 10]) = Inr True \<and>
   map_sum id internal_buffers_absent
     (QT_Insert_all (QT_New (box 0 0 100 100) 1)
        [object_at 1 (- 10) (- 10), object_at 2 10 10, object_at 3 20 20]) = Inr False \<and>
   map_sum id QT_IsLeaf
     (QT_Insert_all (QT_New (box 0 0 100 100) 1)
        [object_at 1 (- 10) (- 10), object_at 2 10 10, object_at 3 20 20]) = Inr False \<and>
   map_sum id objects
     (QT_Insert_all (QT_New (box 0 0 100 100) 1)
        [object_at 1 (- 10) (- 10), object_at 2 10 10, object_at 3 20 20]) =
     Inr (Some [object_at 3 20 20])"
  by (simp add: eval_simps internal_buffers_absent_def)

section \<open>C3: a full leaf is subdivided or grown\<close>

lemma depth_bounded_set_buffer [simp]: "depth_bounded (set_buffer qt os c) = depth_bounded qt"
  by (cases qt) (simp_all add: depth_bounded_def)










section \<open>C4 and C5: redistribution and the children of a subdivision\<close>





section \<open>C6: what an insertion returns\<close>

text \<open>
  C6. \<open>QT_Insert\<close> returns false if and only if the position of the object is not
  contained in the boundary of the node; when it returns false the node is left as it
  was, and so is the result of every later query.
\<close>

theorem QT_Insert_false_iff_outside:
  "((\<exists>qt'. QT_Insert qt obj = Inr (False, qt')) \<longleftrightarrow>
      \<not> BoundaryContains (boundary qt) (QT_Object.pos obj)) \<and>
   (\<forall>qt'. QT_Insert qt obj = Inr (False, qt') \<longrightarrow>
      qt' = qt \<and> (\<forall>query results. QT_Query qt' query results = QT_Query qt query results))"
proof -
  have "qt' = qt" if "QT_Insert qt obj = Inr (False, qt')" for qt'
  proof (cases "BoundaryContains (boundary qt) (QT_Object.pos obj)")
    case True
    with that show ?thesis by (auto dest: QT_Insert_inside)
  next
    case False
    with that show ?thesis by (simp add: QT_Insert_outside)
  qed
  moreover have "\<not> BoundaryContains (boundary qt) (QT_Object.pos obj)"
    if "QT_Insert qt obj = Inr (False, qt')" for qt'
    using that by (auto dest: QT_Insert_inside)
  ultimately show ?thesis by (auto simp: QT_Insert_outside)
qed

theorem QT_Insert_false_iff_outside_witness:
  "QT_Insert (QT_New (box 0 0 100 100) 4) (object_at 1 500 500) =
     Inr (False, QT_New (box 0 0 100 100) 4) \<and>
   \<not> BoundaryContains (boundary (QT_New (box 0 0 100 100) 4)) (QT_Object.pos (object_at 1 500 500))"
  using QT_Insert_false_iff_outside [of "QT_New (box 0 0 100 100) 4" "object_at 1 500 500"]
  by (auto simp: box_def object_at_def QT_New_def BoundaryContains_def)

section \<open>C7: pruning in the range query\<close>

text \<open>
  C7. When the query region does not intersect the boundary of the node, \<open>QT_Query\<close>
  returns false and leaves the result sequence as it was; started on an empty sequence
  it yields the empty sequence. When the region intersects the boundary it returns
  true, whatever the objects are.
\<close>

theorem QT_Query_prunes:
  "(\<not> BoundaryIntersects (boundary qt) query \<longrightarrow>
      QT_Query qt query results = (False, results) \<and> snd (QT_Query qt query []) = []) \<and>
   (BoundaryIntersects (boundary qt) query \<longrightarrow> fst (QT_Query qt query results))"
  by (cases qt) (simp_all add: Let_def)

theorem QT_Query_prunes_witness:
  "QT_Query (Leaf (box 0 0 100 100) (Some [object_at 1 10 10]) 4 1) (box 500 500 5 5) [] = (False, []) \<and>
   \<not> BoundaryIntersects (box 0 0 100 100) (box 500 500 5 5) \<and>
   QT_Query (Leaf (box 0 0 100 100) (Some [object_at 1 10 10]) 4 1) (box 50 50 5 5) [] = (True, []) \<and>
   BoundaryIntersects (box 0 0 100 100) (box 50 50 5 5)"
  using QT_Query_prunes [of "Leaf (box 0 0 100 100) (Some [object_at 1 10 10]) 4 1" "box 500 500 5 5" "[]"]
    QT_Query_prunes [of "Leaf (box 0 0 100 100) (Some [object_at 1 10 10]) 4 1" "box 50 50 5 5" "[]"]
  by (simp add: box_def object_at_def BoundaryIntersects_def BoundaryContains_def buffer_def)

section \<open>C8 and C9: containment and intersection\<close>





section \<open>C10: the object count stays within the capacity\<close>

lemma within_capacity_set_buffer:
  "within_capacity qt \<Longrightarrow> int (length (case os of None \<Rightarrow> [] | Some xs \<Rightarrow> xs)) \<le> c \<Longrightarrow>
     within_capacity (set_buffer qt os c)"
  by (cases qt) (simp_all add: within_capacity_def obj_count_def buffer_def)

lemma within_capacity_node: "within_capacity qt \<Longrightarrow> obj_count qt \<le> capacity qt"
  by (cases qt) (simp_all add: within_capacity_def)

lemma within_capacity_fresh_quad:
  "obj_count qt \<le> capacity qt \<Longrightarrow> within_capacity (fresh_quad qt)"
proof -
  assume a: "obj_count qt \<le> capacity qt"
  have "0 \<le> obj_count qt" by simp
  with a have "0 \<le> capacity qt" by linarith
  with a show ?thesis
    by (simp add: within_capacity_def fresh_quad_def QT_New_def obj_count_def buffer_def)
qed

lemma within_capacity_calls:
  "within_capacity qt \<Longrightarrow> QT_Insert qt obj = Inr (ok, q) \<Longrightarrow> within_capacity q"
  "within_capacity qt' \<Longrightarrow> QT_Insert_branches qt' obj' = Inr (ok', q') \<Longrightarrow> within_capacity q'"
  "within_capacity qt'' \<Longrightarrow> QT_push_down qt'' objs = Inr q'' \<Longrightarrow> within_capacity q''"
  "obj_count qt''' \<le> capacity qt''' \<Longrightarrow> QT_Subdivide qt''' = Inr q''' \<Longrightarrow> within_capacity q'''"
proof (induction qt obj and qt' obj' and qt'' objs and qt'''
    arbitrary: ok q and ok' q' and q'' and q''' rule: QT_Insert_induct)
  case (insert qt obj)
  from insert.prems(2) show ?case
  proof (cases rule: QT_Insert_Inr_cases)
    case outside
    with insert.prems show ?thesis by simp
  next
    case store
    with insert.prems show ?thesis
      by (simp add: QT_store_def within_capacity_set_buffer obj_count_def)
  next
    case (split qt1 ok2 qt2)
    from insert.prems(1) have "obj_count qt \<le> capacity qt" by (rule within_capacity_node)
    from insert.IH(1) [OF split(1-4) this split(5)] have "within_capacity qt1" .
    from insert.IH(2) [OF split(1-5) this split(6)] have "within_capacity qt2" .
    with split(8) show ?thesis
      by (auto split: if_splits dest!: QT_grow_Inr
          simp: within_capacity_set_buffer obj_count_def)
  next
    case grow
    with insert.prems show ?thesis
      by (auto dest!: QT_grow_Inr simp: within_capacity_set_buffer obj_count_def)
  qed
next
  case (branches_leaf b os c d obj)
  then show ?case by (simp add: QT_Insert_branches.simps)
next
  case (branches_quad b os c d n0 n1 n2 n3 obj)
  from branches_quad.prems(1) have
    db: "within_capacity n0" "within_capacity n1" "within_capacity n2" "within_capacity n3"
    and hd: "obj_count (Quad b os c d n0 n1 n2 n3) \<le> c"
    by (simp_all add: within_capacity_def)
  have hd': "obj_count (Quad b os c d m0 m1 m2 m3) \<le> c" for m0 m1 m2 m3
    using hd by (simp add: obj_count_def buffer_def)
  from branches_quad.prems(2) show ?case
  proof (cases rule: QT_Insert_branches_Inr_cases)
    case (branch0 n')
    from branches_quad.IH(1) [OF db(1) branch0(2)] db hd' branch0(4) show ?thesis
      by (simp add: within_capacity_def)
  next
    case (branch1 n')
    from branches_quad.IH(2) [OF branch1(1) db(2) branch1(3)] db hd' branch1(5) show ?thesis
      by (simp add: within_capacity_def)
  next
    case (branch2 n')
    from branches_quad.IH(3) [OF branch2(1,2) db(3) branch2(4)] db hd' branch2(6) show ?thesis
      by (simp add: within_capacity_def)
  next
    case (branch3 n')
    from branches_quad.IH(4) [OF branch3(1,2,3) db(4) branch3(5)] db hd' branch3(7) show ?thesis
      by (simp add: within_capacity_def)
  next
    case none
    with branches_quad.prems(1) show ?thesis by simp
  qed
next
  case (push_nil qt)
  then show ?case by simp
next
  case (push_cons qt obj rest)
  from push_cons.prems(2) obtain ok1 qt1 where
    br: "QT_Insert_branches qt obj = Inr (ok1, qt1)" and tl: "QT_push_down qt1 rest = Inr q''"
    by (auto split: sum.splits)
  from push_cons.IH(1) [OF push_cons.prems(1) br] have "within_capacity qt1" .
  from push_cons.IH(2) [OF br this tl] show ?case .
next
  case (subdivide qt)
  from subdivide.prems(2) obtain qt2 where
    pd: "QT_push_down (fresh_quad qt) (buffer qt) = Inr qt2" and
    q: "q''' = set_buffer qt2 None (capacity qt2)"
    by (auto simp: QT_Subdivide_fresh_quad split: sum.splits)
  from subdivide.IH [OF within_capacity_fresh_quad [OF subdivide.prems(1)] pd]
  have w: "within_capacity qt2" .
  have "0 \<le> obj_count qt2" by simp
  with within_capacity_node [OF w] have "0 \<le> capacity qt2" by linarith
  with w q show ?case by (simp add: within_capacity_set_buffer)
qed

lemma within_capacity_QT_Insert_all:
  "within_capacity qt \<Longrightarrow> QT_Insert_all qt objs = Inr qt' \<Longrightarrow> within_capacity qt'"
  by (induction objs arbitrary: qt)
     (auto split: sum.splits dest: within_capacity_calls(1))

text \<open>
  C10. Every node of a tree has at most as many buffered objects as its capacity: this
  holds for a root constructed with capacity at least 1, and every \<open>QT_Insert\<close> and
  every \<open>QT_Subdivide\<close> that returns preserves it, so it holds after every sequence of
  insertions. An object is appended either under the test that the count is below the
  capacity, or by \<open>QT_grow\<close>, which doubles the capacity first. An insertion into a
  tree with this property does return when the root's capacity is at least 1 and its
  double fits an \<^verbatim>\<open>int\<close>.
\<close>

theorem obj_count_within_capacity:
  "(1 \<le> cap \<longrightarrow> within_capacity (QT_New b cap)) \<and>
   (\<forall>qt obj ok qt'. within_capacity qt \<and> QT_Insert qt obj = Inr (ok, qt') \<longrightarrow>
      within_capacity qt') \<and>
   (\<forall>qt qt'. within_capacity qt \<and> QT_Subdivide qt = Inr qt' \<longrightarrow> within_capacity qt') \<and>
   (\<forall>objs qt'. 1 \<le> cap \<and> QT_Insert_all (QT_New b cap) objs = Inr qt' \<longrightarrow>
      within_capacity qt') \<and>
   (\<forall>qt obj ok qt'. QT_grow qt obj = Inr (ok, qt') \<longrightarrow>
      capacity qt' = 2 * capacity qt \<and> obj_count qt' = obj_count qt + 1 \<and>
      obj_count qt' \<le> capacity qt') \<and>
   (\<forall>qt obj. within_capacity qt \<and> 1 \<le> capacity qt \<and> 2 * capacity qt \<le> INT_MAX \<longrightarrow>
      (\<exists>qt'. QT_Insert qt obj = Inr (BoundaryContains (boundary qt) (QT_Object.pos obj), qt')))"
proof (intro conjI allI impI)
  show "\<exists>qt'. QT_Insert qt obj = Inr (BoundaryContains (boundary qt) (QT_Object.pos obj), qt')"
    if "within_capacity qt \<and> 1 \<le> capacity qt \<and> 2 * capacity qt \<le> INT_MAX" for qt obj
    using that by (intro QT_Insert_returns within_capacity_node) simp_all
  show new: "within_capacity (QT_New b cap)" if "1 \<le> cap"
    using that by (simp add: within_capacity_def QT_New_def obj_count_def buffer_def)
  show "within_capacity qt'" if "within_capacity qt \<and> QT_Insert qt obj = Inr (ok, qt')"
    for qt obj ok qt'
    using that by (auto dest: within_capacity_calls(1))
  show "within_capacity qt'" if "within_capacity qt \<and> QT_Subdivide qt = Inr qt'" for qt qt'
    using that by (auto dest: within_capacity_calls(4) within_capacity_node)
  show "within_capacity qt'" if "1 \<le> cap \<and> QT_Insert_all (QT_New b cap) objs = Inr qt'"
    for objs qt'
    using that new by (auto dest: within_capacity_QT_Insert_all)
  fix qt obj ok qt'
  assume g: "QT_grow qt obj = Inr (ok, qt')"
  from QT_grow_Inr [OF g]
  have q: "qt' = set_buffer qt (Some (buffer qt @ [obj])) (capacity qt * 2)"
    and lt: "obj_count qt < capacity qt * 2" by simp_all
  from q show "capacity qt' = 2 * capacity qt" by (cases qt) simp_all
  from q show c: "obj_count qt' = obj_count qt + 1"
    by (cases qt) (simp_all add: obj_count_def buffer_def)
  from q lt c show "obj_count qt' \<le> capacity qt'" by (cases qt) simp_all
qed

theorem obj_count_within_capacity_witness:
  "(1::int) \<le> 1 \<and>
   within_capacity (Quad (box 0 0 100 100) (Some [object_at 3 20 20]) 2 1
     (Leaf (box (- 50) (- 50) 50 50) (Some [object_at 1 (- 10) (- 10)]) 1 2)
     (Leaf (box (- 50) 50 50 50) (Some []) 1 2)
     (Leaf (box 50 (- 50) 50 50) (Some []) 1 2)
     (Leaf (box 50 50 50 50) (Some [object_at 2 10 10]) 1 2))"
  using obj_count_within_capacity [of 1 "box 0 0 100 100"] three_inserts
  by blast

end
